theory Spec2Isabelle
  imports Main "HOL-Library.Sublist"
begin

section \<open>Text primitives of the host language\<close>

text \<open>
  A Python \<open>str\<close> is modelled as a \<open>string\<close>: a list of characters, each one code point
  in the range 0..255. Lower-casing and white space follow Python on that whole range.
  Title-casing follows Python wherever the result is again a single code point of the
  range; the three characters whose title-case form is not (codes 181, 223 and 255) are
  left as they are. Code points above 255 are outside the model.
\<close>

definition is_space :: "char \<Rightarrow> bool" where
  "is_space c = ((of_char c :: nat) \<in> {9, 10, 11, 12, 13, 28, 29, 30, 31, 32, 133, 160})"

definition is_upper :: "char \<Rightarrow> bool" where
  "is_upper c = (let n = (of_char c :: nat) in
     (65 \<le> n \<and> n \<le> 90) \<or> (192 \<le> n \<and> n \<le> 222 \<and> n \<noteq> 215))"

definition is_lower :: "char \<Rightarrow> bool" where
  "is_lower c = (let n = (of_char c :: nat) in
     (97 \<le> n \<and> n \<le> 122) \<or> (224 \<le> n \<and> n \<le> 254 \<and> n \<noteq> 247))"

definition lower_char :: "char \<Rightarrow> char" where
  "lower_char c = (if is_upper c then char_of ((of_char c :: nat) + 32) else c)"

definition title_char :: "char \<Rightarrow> char" where
  "title_char c = (if is_lower c then char_of ((of_char c :: nat) - 32) else c)"

text \<open>\<open>str.lower()\<close>\<close>

definition lower :: "string \<Rightarrow> string" where
  "lower s = map lower_char s"

text \<open>\<open>str.strip()\<close> with no argument: leading and trailing white space removed.\<close>

definition strip :: "string \<Rightarrow> string" where
  "strip s = rev (dropWhile is_space (rev (dropWhile is_space s)))"

text \<open>\<open>str.capitalize()\<close>: the first character title-cased, the rest lower-cased.\<close>

fun capitalize :: "string \<Rightarrow> string" where
  "capitalize [] = []"
| "capitalize (c # cs) = title_char c # lower cs"

text \<open>
  \<open>str.split(',')\<close> and \<open>re.split(r'[_-]', s)\<close>: the pieces between the separator
  characters, empty pieces kept; the empty string gives one empty piece.
\<close>

fun split_on :: "(char \<Rightarrow> bool) \<Rightarrow> string \<Rightarrow> string list" where
  "split_on sep [] = [[]]"
| "split_on sep (c # cs) =
     (if sep c then [] # split_on sep cs
      else (let r = split_on sep cs in (c # hd r) # tl r))"

text \<open>\<open>sep.join(xs)\<close>\<close>

fun join :: "string \<Rightarrow> string list \<Rightarrow> string" where
  "join sep [] = []"
| "join sep [x] = x"
| "join sep (x # y # ys) = x @ sep @ join sep (y # ys)"

text \<open>\<open>sub in s\<close> on strings: \<open>sub\<close> occurs in \<open>s\<close> as a contiguous piece.\<close>

fun contains :: "string \<Rightarrow> string \<Rightarrow> bool" where
  "contains sub [] = (sub = [])"
| "contains sub (c # cs) = (prefix sub (c # cs) \<or> contains sub cs)"

section \<open>Name Pattern Classifier\<close>

text \<open>The character class \<open>[a-zA-Z0-9_-]\<close>.\<close>

definition name_char :: "char \<Rightarrow> bool" where
  "name_char c = (let n = (of_char c :: nat) in
     (97 \<le> n \<and> n \<le> 122) \<or> (65 \<le> n \<and> n \<le> 90) \<or> (48 \<le> n \<and> n \<le> 57)
     \<or> c = CHR ''_'' \<or> c = CHR ''-'')"

text \<open>
  Without the multi-line flag, \<open>$\<close> matches at the end of the text and also just before
  a line feed that ends the text. None of the patterns below can consume a line feed, so
  a match covers the text with one final line feed taken off.
\<close>

definition before_final_newline :: "string \<Rightarrow> string" where
  "before_final_newline s = (if s \<noteq> [] \<and> last s = CHR 0x0A then butlast s else s)"

text \<open>
  \<open>re.match(r'^([a-zA-Z0-9_-]+)LIT$', s, re.IGNORECASE)\<close> for a literal \<open>LIT\<close>: the
  result is group 1. The literal has a fixed length, so the group is whatever precedes
  the last \<open>length LIT\<close> characters; it must be non-empty and of the character class, and
  the rest must equal the literal up to letter case.
\<close>

definition match_name_then :: "string \<Rightarrow> string \<Rightarrow> string option" where
  "match_name_then lit s =
     (let body = before_final_newline s;
          k = length body - length lit;
          grp = take k body;
          rest = drop k body
      in if length lit < length body \<and> list_all name_char grp
            \<and> map lower_char rest = map lower_char lit
         then Some grp else None)"

text \<open>\<open>re.match(r'^([a-zA-Z0-9_-]+)$', s)\<close>, group 1.\<close>

definition match_name_only :: "string \<Rightarrow> string option" where
  "match_name_only s =
     (let body = before_final_newline s
      in if body \<noteq> [] \<and> list_all name_char body then Some body else None)"

definition extract_pokemon_name :: "string \<Rightarrow> string option" where
  "extract_pokemon_name folder_name =
     (case match_name_then ''Pokedex_IXL'' folder_name of
        Some g \<Rightarrow> Some (lower g)
      | None \<Rightarrow>
     (case match_name_then ''_(pokemon)'' folder_name of
        Some g \<Rightarrow> Some (lower g)
      | None \<Rightarrow>
     (case match_name_then ''_pokemon'' folder_name of
        Some g \<Rightarrow> Some (lower g)
      | None \<Rightarrow>
     (case match_name_only folder_name of
        Some g \<Rightarrow>
          (if \<not> contains ''pokedex'' (lower folder_name)
              \<and> \<not> contains ''(pokemon)'' (lower folder_name)
           then Some (lower g) else None)
      | None \<Rightarrow> None))))"

section \<open>Name Canonicalizer\<close>

definition is_separator :: "char \<Rightarrow> bool" where
  "is_separator c = (c = CHR ''_'' \<or> c = CHR ''-'')"

text \<open>The parts of the name, each capitalized, put together without a separator.\<close>

definition capitalized :: "string \<Rightarrow> string" where
  "capitalized pokemon_name = concat (map capitalize (split_on is_separator pokemon_name))"

definition get_standard_folder_name :: "string \<Rightarrow> string" where
  "get_standard_folder_name pokemon_name = capitalized pokemon_name @ ''Pokedex_IXL''"

definition should_rename_folder :: "string \<Rightarrow> string \<Rightarrow> bool" where
  "should_rename_folder folder_name pokemon_name =
     (folder_name \<noteq> get_standard_folder_name pokemon_name)"

section \<open>Tag Processor\<close>

text \<open>The loop that removes duplicates and keeps the order of first occurrence.\<close>

fun dedupe :: "string list \<Rightarrow> string set \<Rightarrow> string list \<Rightarrow> string list" where
  "dedupe [] seen unique_tags = unique_tags"
| "dedupe (tag # tags) seen unique_tags =
     (if tag \<notin> seen then dedupe tags (insert tag seen) (unique_tags @ [tag])
      else dedupe tags seen unique_tags)"

text \<open>The list \<open>unique_tags\<close> of \<open>process_tags\<close>: split, cleaned, filtered, deduplicated.\<close>

definition unique_tags :: "string \<Rightarrow> string \<Rightarrow> string set \<Rightarrow> string list" where
  "unique_tags tags_str pokemon_name tags_to_absorb =
     (let tags = map (\<lambda>tag. lower (strip tag)) (split_on (\<lambda>c. c = CHR '','') tags_str);
          tags = filter (\<lambda>tag. tag \<noteq> []) tags;
          pokemon_tag = pokemon_name @ ''_(pokemon)'';
          tags = filter (\<lambda>tag. tag \<noteq> pokemon_tag) tags;
          tags = filter (\<lambda>tag. tag \<notin> tags_to_absorb) tags
      in dedupe tags {} [])"

definition trigger_tag :: "string \<Rightarrow> string" where
  "trigger_tag pokemon_name = ''zz'' @ capitalized pokemon_name @ ''C1tr0n''"

definition process_tags :: "string \<Rightarrow> string \<Rightarrow> string set \<Rightarrow> string" where
  "process_tags tags_str pokemon_name tags_to_absorb =
     (let unique = unique_tags tags_str pokemon_name tags_to_absorb;
          trigger_tag_lower = lower (trigger_tag pokemon_name);
          final_tags = (if trigger_tag_lower \<in> set unique then unique
                        else trigger_tag pokemon_name # unique)
      in join '', '' final_tags)"

section \<open>Folder Orchestrator\<close>





record scan =
  folders_to_process :: "(string \<times> string) list"
  folders_to_rename :: "(string \<times> string) list"
  unprocessed_folders :: "string list"

text \<open>
  The first loop of \<open>main\<close>: every folder is classified, its name is checked with the
  external collaborator \<open>ispokemon\<close> (a parameter here), and it is filed.
\<close>

fun scan_folders :: "(string \<Rightarrow> bool) \<Rightarrow> string list \<Rightarrow> scan \<Rightarrow> scan" where
  "scan_folders ispokemon [] acc = acc"
| "scan_folders ispokemon (folder # rest) acc =
     scan_folders ispokemon rest
       (case extract_pokemon_name folder of
          None \<Rightarrow>
            acc\<lparr>unprocessed_folders := unprocessed_folders acc @ [folder @ '' (unrecognized format)'']\<rparr>
        | Some pokemon_name \<Rightarrow>
            if \<not> ispokemon (capitalize pokemon_name)
            then acc\<lparr>unprocessed_folders :=
                       unprocessed_folders acc @ [folder @ '' (Pokemon name not in database)'']\<rparr>
            else (let acc1 = acc\<lparr>folders_to_process := folders_to_process acc @ [(folder, pokemon_name)]\<rparr>
                  in if should_rename_folder folder pokemon_name
                     then acc1\<lparr>folders_to_rename :=
                                 folders_to_rename acc1 @ [(folder, get_standard_folder_name pokemon_name)]\<rparr>
                     else acc1))"







section \<open>Notions used in the statements\<close>

abbreviation "is_comma \<equiv> (\<lambda>c. c = CHR '','')"

text \<open>A character a subject name is made of: lower-case letter, digit, underscore, hyphen.\<close>

definition subject_char :: "char \<Rightarrow> bool" where
  "subject_char c = (let n = (of_char c :: nat) in
     (97 \<le> n \<and> n \<le> 122) \<or> (48 \<le> n \<and> n \<le> 57) \<or> c = CHR ''_'' \<or> c = CHR ''-'')"

definition subject_name :: "string \<Rightarrow> bool" where
  "subject_name n = (n \<noteq> [] \<and> list_all subject_char n)"

text \<open>A tag that survives the three filters of \<open>process_tags\<close>.\<close>

definition kept :: "string \<Rightarrow> string set \<Rightarrow> string \<Rightarrow> bool" where
  "kept pokemon_name tags_to_absorb t =
     (t \<noteq> [] \<and> t \<noteq> pokemon_name @ ''_(pokemon)'' \<and> t \<notin> tags_to_absorb)"

text \<open>
  The shape of a tag list after cleaning: no repetition, and every tag free of commas,
  unchanged by trimming and lower-casing, and not filtered out.
\<close>

definition tidy :: "string \<Rightarrow> string set \<Rightarrow> string list \<Rightarrow> bool" where
  "tidy pokemon_name tags_to_absorb ts =
     (distinct ts \<and> (\<forall>t\<in>set ts. CHR '','' \<notin> set t \<and> lower (strip t) = t
        \<and> kept pokemon_name tags_to_absorb t))"

text \<open>
  Reading a tag line back: \<open>s.split(', ')\<close>, the pieces between the occurrences of a comma
  followed by a space, found from the left.
\<close>

fun split_comma_space :: "string \<Rightarrow> string list" where
  "split_comma_space [] = [[]]"
| "split_comma_space [c] = [[c]]"
| "split_comma_space (c # d # cs) =
     (if c = CHR '','' \<and> d = CHR '' '' then [] # split_comma_space cs
      else (let r = split_comma_space (d # cs) in (c # hd r) # tl r))"




section \<open>Facts about characters\<close>

lemma of_char_lower_char:
  "(of_char (lower_char c) :: nat) = (if is_upper c then of_char c + 32 else of_char c)"
  by (auto simp: lower_char_def is_upper_def Let_def)

lemma of_char_title_char:
  "(of_char (title_char c) :: nat) = (if is_lower c then of_char c - 32 else of_char c)"
  by (auto simp: title_char_def is_lower_def Let_def)

lemma char_eq_iff_code: "(c = d) = ((of_char c :: nat) = of_char d)"
  by simp

lemma is_upper_lower_char [simp]: "\<not> is_upper (lower_char c)"
  unfolding is_upper_def Let_def of_char_lower_char by (auto simp: is_upper_def Let_def)

lemma lower_char_idem [simp]: "lower_char (lower_char c) = lower_char c"
  by (simp add: lower_char_def[of "lower_char c"])

lemma is_space_lower_char [simp]: "is_space (lower_char c) = is_space c"
  unfolding is_space_def of_char_lower_char by (auto simp: is_upper_def Let_def)

lemma lower_char_eq_comma [simp]: "(lower_char c = CHR '','') = (c = CHR '','')"
  unfolding char_eq_iff_code[of _ "CHR '',''"] of_char_lower_char by (auto simp: is_upper_def Let_def)

lemma title_char_eq_comma [simp]: "(title_char c = CHR '','') = (c = CHR '','')"
  unfolding char_eq_iff_code[of _ "CHR '',''"] of_char_title_char by (auto simp: is_lower_def Let_def)

section \<open>Facts about the classifier\<close>

lemma name_char_code:
  "name_char c = (let n = (of_char c :: nat) in
     (97 \<le> n \<and> n \<le> 122) \<or> (65 \<le> n \<and> n \<le> 90) \<or> (48 \<le> n \<and> n \<le> 57) \<or> n = 95 \<or> n = 45)"
  unfolding name_char_def Let_def char_eq_iff_code[of c] by simp

lemma subject_char_code:
  "subject_char c = (let n = (of_char c :: nat) in
     (97 \<le> n \<and> n \<le> 122) \<or> (48 \<le> n \<and> n \<le> 57) \<or> n = 95 \<or> n = 45)"
  unfolding subject_char_def Let_def char_eq_iff_code[of c] by simp

lemma subject_char_lower_char: "name_char c \<Longrightarrow> subject_char (lower_char c)"
  unfolding name_char_code subject_char_code Let_def of_char_lower_char
  by (auto simp: is_upper_def Let_def)


lemma name_char_not_newline: "name_char c \<Longrightarrow> c \<noteq> CHR 0x0A"
  unfolding name_char_code Let_def by auto

lemma lower_char_newline [simp]: "(lower_char c = CHR 0x0A) = (c = CHR 0x0A)"
  unfolding char_eq_iff_code[of _ "CHR 0x0A"] of_char_lower_char by (auto simp: is_upper_def Let_def)

lemma match_name_then_SomeD:
  assumes "match_name_then lit s = Some g"
  shows "g \<noteq> [] \<and> list_all name_char g"
  using assms by (auto simp: match_name_then_def Let_def split: if_splits)

lemma match_name_only_SomeD:
  assumes "match_name_only s = Some g"
  shows "g \<noteq> [] \<and> list_all name_char g"
  using assms by (auto simp: match_name_only_def Let_def split: if_splits)

lemma extract_pokemon_name_SomeD:
  assumes "extract_pokemon_name x = Some n"
  shows "\<exists>g. n = lower g \<and> g \<noteq> [] \<and> list_all name_char g"
  using assms match_name_then_SomeD match_name_only_SomeD
  unfolding extract_pokemon_name_def
  by (fastforce split: option.splits if_splits)

lemma extract_pokemon_name_subject:
  assumes "extract_pokemon_name x = Some n"
  shows "n \<noteq> [] \<and> list_all subject_char n"
proof -
  from extract_pokemon_name_SomeD[OF assms] obtain g
    where g: "n = lower g" "g \<noteq> []" "list_all name_char g" by blast
  then show ?thesis
    by (auto simp: lower_def list_all_iff subject_char_lower_char)
qed

lemma before_final_newline_id:
  assumes "s = [] \<or> last s \<noteq> CHR 0x0A"
  shows "before_final_newline s = s"
  using assms by (auto simp: before_final_newline_def)

lemma match_name_then_append:
  assumes "g \<noteq> []" "list_all name_char g" "map lower_char suf = map lower_char lit"
    and "CHR 0x0A \<notin> set lit"
  shows "match_name_then lit (g @ suf) = Some g"
proof -
  have len: "length suf = length lit"
    using assms(3) by (metis length_map)
  have "CHR 0x0A \<notin> set suf"
  proof
    assume "CHR 0x0A \<in> set suf"
    then have "lower_char (CHR 0x0A) \<in> set (map lower_char lit)"
      using assms(3) by (metis image_eqI set_map)
    then obtain c where "c \<in> set lit" "lower_char c = lower_char (CHR 0x0A)" by auto
    then show False using assms(4)
      by (metis lower_char_newline)
  qed
  moreover have "CHR 0x0A \<notin> set g"
    using assms(2) name_char_not_newline by (auto simp: list_all_iff)
  ultimately have "CHR 0x0A \<notin> set (g @ suf)" by simp
  then have "last (g @ suf) \<noteq> CHR 0x0A"
    using assms(1) by (metis Nil_is_append_conv last_in_set)
  then have "before_final_newline (g @ suf) = g @ suf"
    by (rule before_final_newline_id[OF disjI2])
  then show ?thesis
    using assms(1,2,3) len by (simp add: match_name_then_def Let_def)
qed

lemma extract_pokemon_name_standard:
  assumes "g \<noteq> []" "list_all name_char g" "map lower_char suf = map lower_char ''Pokedex_IXL''"
  shows "extract_pokemon_name (g @ suf) = Some (lower g)"
proof -
  have "match_name_then ''Pokedex_IXL'' (g @ suf) = Some g"
    by (rule match_name_then_append[OF assms]) simp
  then show ?thesis by (simp add: extract_pokemon_name_def)
qed

section \<open>Facts about splitting, joining and trimming\<close>

lemma split_on_not_Nil [simp]: "split_on P s \<noteq> []"
  by (induction s) (auto simp: Let_def)

lemma split_on_free: "\<forall>c\<in>set s. \<not> P c \<Longrightarrow> split_on P s = [s]"
  by (induction s) (auto simp: Let_def)

lemma split_on_pieces_all: "\<forall>x\<in>set (split_on P s). \<forall>c\<in>set x. \<not> P c"
proof (induction s)
  case Nil
  then show ?case by simp
next
  case (Cons d s)
  obtain p ps where r: "split_on P s = p # ps" by (cases "split_on P s") auto
  with Cons show ?case by (auto simp: Let_def)
qed

lemma split_on_pieces: "x \<in> set (split_on P s) \<Longrightarrow> c \<in> set x \<Longrightarrow> \<not> P c"
  using split_on_pieces_all by blast

lemma split_on_append:
  "P c \<Longrightarrow> split_on P (a @ c # b) = split_on P a @ split_on P b"
proof (induction a)
  case Nil
  then show ?case by simp
next
  case (Cons d a)
  have ne: "split_on P a \<noteq> []" by simp
  then obtain p ps where r: "split_on P a = p # ps" by (cases "split_on P a") auto
  with Cons show ?case by (simp add: Let_def)
qed

lemma join_push_char: "c # join sep (u # us) = join sep ((c # u) # us)"
  by (cases us) auto

lemma split_on_join:
  assumes "\<forall>u\<in>set us. CHR '','' \<notin> set u"
  shows "split_on is_comma (join '', '' (x # us)) = split_on is_comma x @ map ((#) CHR '' '') us"
  using assms
proof (induction us arbitrary: x)
  case Nil
  then show ?case by simp
next
  case (Cons u us)
  have "join '', '' (x # u # us) = x @ CHR '','' # join '', '' ((CHR '' '' # u) # us)"
    by (simp add: join_push_char)
  then have "split_on is_comma (join '', '' (x # u # us))
      = split_on is_comma x @ split_on is_comma (join '', '' ((CHR '' '' # u) # us))"
    by (simp add: split_on_append)
  also have "split_on is_comma (join '', '' ((CHR '' '' # u) # us))
      = split_on is_comma (CHR '' '' # u) @ map ((#) CHR '' '') us"
    using Cons by simp
  also have "split_on is_comma (CHR '' '' # u) = [CHR '' '' # u]"
    using Cons.prems by (intro split_on_free) auto
  finally show ?case by simp
qed

lemma is_space_space [simp]: "is_space CHR '' ''"
  by (simp add: is_space_def)

lemma strip_space_Cons [simp]: "strip (CHR '' '' # s) = strip s"
  by (simp add: strip_def)

lemma set_strip: "set (strip s) \<subseteq> set s"
  unfolding strip_def by (metis set_rev set_dropWhileD subsetI)

lemma strip_map:
  assumes "\<And>c. is_space (f c) = is_space c"
  shows "strip (map f s) = map f (strip s)"
proof -
  have "is_space \<circ> f = is_space" using assms by auto
  then show ?thesis
    by (simp add: strip_def dropWhile_map rev_map)
qed

lemma strip_lower: "strip (lower s) = lower (strip s)"
  unfolding lower_def by (rule strip_map) simp

lemma strip_fixed_iff: "strip s = s \<longleftrightarrow> s = [] \<or> (\<not> is_space (hd s) \<and> \<not> is_space (last s))"
proof (cases s)
  case Nil
  then show ?thesis by (simp add: strip_def)
next
  case (Cons a as)
  show ?thesis
  proof (cases "is_space a")
    case True
    have "length (strip s) \<le> length (dropWhile is_space s)"
      unfolding strip_def by (metis length_dropWhile_le length_rev)
    also have "\<dots> < length s" using True Cons
      by (simp add: le_imp_less_Suc length_dropWhile_le)
    finally have "strip s \<noteq> s" by auto
    with True Cons show ?thesis by simp
  next
    case False
    then have d: "dropWhile is_space s = s" using Cons by simp
    show ?thesis
    proof (cases "is_space (last s)")
      case True
      moreover have "s \<noteq> []" using Cons by simp
      ultimately have "is_space (hd (rev s))" by (simp add: hd_rev)
      then have "length (dropWhile is_space (rev s)) < length (rev s)"
        using Cons by (cases "rev s") (auto simp: le_imp_less_Suc length_dropWhile_le)
      then have "strip s \<noteq> s" unfolding strip_def d
        by (metis length_rev less_irrefl)
      with True Cons show ?thesis by simp
    next
      case l: False
      moreover have "s \<noteq> []" using Cons by simp
      ultimately have "\<not> is_space (hd (rev s))" by (simp add: hd_rev)
      then have "dropWhile is_space (rev s) = rev s"
        using Cons by (cases "rev s") auto
      then have "strip s = s" unfolding strip_def d by simp
      with False l Cons show ?thesis by simp
    qed
  qed
qed

lemma strip_strip [simp]: "strip (strip s) = strip s"
proof -
  let ?a = "dropWhile is_space s"
  let ?b = "dropWhile is_space (rev ?a)"
  have b: "strip s = rev ?b" by (simp add: strip_def)
  show ?thesis
  proof (cases "?b = []")
    case True
    then have "strip s = []" using b by simp
    then show ?thesis by (simp add: strip_def[of "[]"])
  next
    case False
    then have hb: "\<not> is_space (hd ?b)" by (metis hd_dropWhile)
    have "?a \<noteq> []"
    proof
      assume "?a = []"
      then have "?b = []" by (metis dropWhile.simps(1) rev.simps(1))
      with False show False by blast
    qed
    then have ha: "\<not> is_space (hd ?a)" by (metis hd_dropWhile)
    obtain pre where pre: "rev ?a = pre @ ?b"
      by (metis takeWhile_dropWhile_id)
    then have "?a = rev ?b @ rev pre" by (metis rev_append rev_rev_ident)
    then have "hd (rev ?b) = hd ?a" using False by (metis hd_append2 rev_is_Nil_conv)
    with ha hb False have "\<not> is_space (hd (strip s)) \<and> \<not> is_space (last (strip s))"
      unfolding b by (simp add: last_rev)
    then show ?thesis using strip_fixed_iff by blast
  qed
qed

lemma lower_lower [simp]: "lower (lower s) = lower s"
  by (simp add: lower_def)

lemma norm_idem: "lower (strip (lower (strip s))) = lower (strip s)"
  by (simp add: strip_lower)

lemma norm_space_Cons: "lower (strip (CHR '' '' # s)) = lower (strip s)"
  by simp

lemma comma_lower [simp]: "CHR '','' \<in> set (lower s) \<longleftrightarrow> CHR '','' \<in> set s"
  by (auto simp: lower_def image_iff) (metis lower_char_eq_comma)+

section \<open>Facts about the duplicate filter\<close>

lemma dedupe_acc: "dedupe xs seen acc = acc @ dedupe xs seen []"
proof (induction xs arbitrary: seen acc)
  case Nil
  then show ?case by simp
next
  case (Cons x xs)
  show ?case
  proof (cases "x \<in> seen")
    case True
    then show ?thesis using Cons[of seen acc] by simp
  next
    case False
    then show ?thesis
      using Cons[of "insert x seen" "acc @ [x]"] Cons[of "insert x seen" "[x]"] by simp
  qed
qed

lemma dedupe_Cons:
  "dedupe (x # xs) seen [] =
     (if x \<in> seen then dedupe xs seen [] else x # dedupe xs (insert x seen) [])"
  using dedupe_acc[of xs "insert x seen" "[x]"] by simp

declare dedupe.simps(2) [simp del]

lemma set_dedupe: "set (dedupe xs seen []) = set xs - seen"
  by (induction xs arbitrary: seen) (auto simp: dedupe_Cons)

lemma distinct_dedupe: "distinct (dedupe xs seen [])"
  by (induction xs arbitrary: seen) (auto simp: dedupe_Cons set_dedupe)

lemma dedupe_filter: "dedupe xs seen [] = filter (\<lambda>x. x \<notin> seen) (dedupe xs {} [])"
proof (induction xs arbitrary: seen)
  case Nil
  then show ?case by simp
next
  case (Cons x xs)
  have a: "dedupe xs (insert x seen) [] = filter (\<lambda>y. y \<notin> insert x seen) (dedupe xs {} [])"
    by (rule Cons)
  have b: "dedupe xs {x} [] = filter (\<lambda>y. y \<notin> {x}) (dedupe xs {} [])"
    by (rule Cons)
  have c: "dedupe xs seen [] = filter (\<lambda>y. y \<notin> seen) (dedupe xs {} [])"
    by (rule Cons)
  show ?case
  proof (cases "x \<in> seen")
    case True
    then have "filter (\<lambda>y. y \<notin> seen) (filter (\<lambda>y. y \<notin> {x}) (dedupe xs {} []))
        = filter (\<lambda>y. y \<notin> seen) (dedupe xs {} [])"
      by (auto intro: filter_cong)
    with True b c show ?thesis by (simp add: dedupe_Cons)
  next
    case False
    have "filter (\<lambda>y. y \<notin> seen) (filter (\<lambda>y. y \<notin> {x}) (dedupe xs {} []))
        = filter (\<lambda>y. y \<notin> insert x seen) (dedupe xs {} [])"
      by (auto intro: filter_cong)
    with False a b show ?thesis by (simp add: dedupe_Cons)
  qed
qed

lemma dedupe_append:
  "dedupe (xs @ ys) seen [] = dedupe xs seen [] @ dedupe ys (seen \<union> set xs) []"
proof (induction xs arbitrary: seen)
  case Nil
  then show ?case by simp
next
  case (Cons x xs)
  show ?case
  proof (cases "x \<in> seen")
    case True
    then have "seen \<union> set (x # xs) = seen \<union> set xs" by auto
    with True Cons[of seen] show ?thesis by (simp add: dedupe_Cons)
  next
    case False
    have "seen \<union> set (x # xs) = insert x seen \<union> set xs" by auto
    with False Cons[of "insert x seen"] show ?thesis by (simp add: dedupe_Cons)
  qed
qed

lemma dedupe_distinct: "distinct xs \<Longrightarrow> set xs \<inter> seen = {} \<Longrightarrow> dedupe xs seen [] = xs"
  by (induction xs arbitrary: seen) (auto simp: dedupe_Cons)

lemma dedupe_append_absorb:
  "dedupe (ps @ dedupe (ps @ us) {} []) {} [] = dedupe (ps @ us) {} []"
proof -
  let ?d = "dedupe (ps @ us) {} []"
  have split: "?d = dedupe ps {} [] @ dedupe us (set ps) []"
    using dedupe_append[of ps us "{}"] by simp
  have "dedupe (ps @ ?d) {} [] = dedupe ps {} [] @ dedupe ?d (set ps) []"
    using dedupe_append[of ps ?d "{}"] by simp
  also have "dedupe ?d (set ps) [] = filter (\<lambda>x. x \<notin> set ps) (dedupe ?d {} [])"
    by (rule dedupe_filter)
  also have "dedupe ?d {} [] = ?d"
    by (rule dedupe_distinct) (simp_all add: distinct_dedupe)
  also have "filter (\<lambda>x. x \<notin> set ps) ?d = dedupe us (set ps) []"
  proof -
    have "filter (\<lambda>x. x \<notin> set ps) (dedupe ps {} []) = []"
      by (simp add: filter_empty_conv set_dedupe)
    moreover have "filter (\<lambda>x. x \<notin> set ps) (dedupe us (set ps) []) = dedupe us (set ps) []"
      by (simp add: filter_id_conv set_dedupe)
    ultimately show ?thesis by (simp add: split)
  qed
  finally show ?thesis by (simp add: split)
qed

lemma unique_tags_alt:
  "unique_tags s n a =
     dedupe (filter (kept n a) (map (\<lambda>t. lower (strip t)) (split_on is_comma s))) {} []"
proof -
  have "(\<lambda>x. (x \<noteq> [] \<and> x \<noteq> n @ ''_(pokemon)'') \<and> x \<notin> a) = kept n a"
    by (auto simp: kept_def)
  then show ?thesis
    by (simp add: unique_tags_def Let_def)
qed

section \<open>Facts about the tag processor\<close>

lemma norm_piece_comma:
  assumes "t \<in> set (map (\<lambda>t. lower (strip t)) (split_on is_comma s))"
  shows "CHR '','' \<notin> set t"
proof -
  from assms obtain p where p: "p \<in> set (split_on is_comma s)" "t = lower (strip p)"
    unfolding set_map by (rule imageE)
  have "CHR '','' \<notin> set p" using split_on_pieces[OF p(1), of "CHR '',''"] by blast
  then have "CHR '','' \<notin> set (strip p)" using set_strip[of p] by (rule contra_subsetD[rotated])
  then show ?thesis unfolding p(2) comma_lower .
qed

lemma tidy_dedupe_pieces:
  assumes "tidy n a us"
  shows "tidy n a (dedupe (filter (kept n a) (map (\<lambda>t. lower (strip t)) (split_on is_comma x)) @ us) {} [])"
    (is "tidy n a (dedupe (?ps @ us) {} [])")
proof -
  have "CHR '','' \<notin> set t \<and> lower (strip t) = t \<and> kept n a t"
    if "t \<in> set (dedupe (?ps @ us) {} [])" for t
  proof -
    from that have "t \<in> set ?ps \<or> t \<in> set us"
      unfolding set_dedupe set_append by blast
    then show ?thesis
    proof
      assume "t \<in> set ?ps"
      then have k: "kept n a t"
        and m: "t \<in> set (map (\<lambda>t. lower (strip t)) (split_on is_comma x))"
        unfolding set_filter by blast+
      have "CHR '','' \<notin> set t" using m by (rule norm_piece_comma)
      moreover from m obtain p where "t = lower (strip p)"
        unfolding set_map by (rule imageE)
      then have "lower (strip t) = t" by (simp only: norm_idem)
      ultimately show ?thesis using k by blast
    next
      assume "t \<in> set us"
      then show ?thesis using assms unfolding tidy_def by blast
    qed
  qed
  then show ?thesis unfolding tidy_def using distinct_dedupe by blast
qed

lemma tidy_Nil [simp]: "tidy n a []"
  by (simp add: tidy_def)

lemma tidy_unique_tags: "tidy n a (unique_tags s n a)"
  using tidy_dedupe_pieces[of n a "[]" s] by (simp add: unique_tags_alt)

text \<open>Re-reading a joined tag list.\<close>

lemma unique_tags_join:
  assumes "tidy n a us"
  shows "unique_tags (join '', '' (x # us)) n a =
     dedupe (filter (kept n a) (map (\<lambda>t. lower (strip t)) (split_on is_comma x)) @ us) {} []"
proof -
  have cf: "\<forall>u\<in>set us. CHR '','' \<notin> set u" using assms by (simp add: tidy_def)
  have n: "map (\<lambda>t. lower (strip t)) (map ((#) CHR '' '') us) = us"
    using assms by (simp add: tidy_def map_idI)
  have k: "filter (kept n a) us = us"
    using assms by (simp add: tidy_def filter_id_conv)
  have "unique_tags (join '', '' (x # us)) n a =
      dedupe (filter (kept n a) (map (\<lambda>t. lower (strip t))
        (split_on is_comma x @ map ((#) CHR '' '') us))) {} []"
    by (simp only: unique_tags_alt split_on_join[OF cf])
  also have "\<dots> = dedupe (filter (kept n a) (map (\<lambda>t. lower (strip t)) (split_on is_comma x))
        @ filter (kept n a) (map (\<lambda>t. lower (strip t)) (map ((#) CHR '' '') us))) {} []"
    by (simp only: map_append filter_append)
  finally show ?thesis by (simp only: n k)
qed

lemma unique_tags_join_tidy:
  assumes "tidy n a us" "us \<noteq> []"
  shows "unique_tags (join '', '' us) n a = us"
proof -
  from assms(2) obtain u us' where us: "us = u # us'" by (cases us) auto
  have t': "tidy n a us'" using assms(1) us by (simp add: tidy_def)
  have u: "CHR '','' \<notin> set u" "lower (strip u) = u" "kept n a u"
    using assms(1) us by (simp_all add: tidy_def)
  have "split_on is_comma u = [u]" using u(1) by (intro split_on_free) auto
  then have "filter (kept n a) (map (\<lambda>t. lower (strip t)) (split_on is_comma u)) = [u]"
    using u by simp
  then have "unique_tags (join '', '' (u # us')) n a = dedupe (u # us') {} []"
    using unique_tags_join[OF t', of u] by simp
  also have "\<dots> = u # us'"
    using assms(1) us by (intro dedupe_distinct) (simp_all add: tidy_def)
  finally show ?thesis using us by simp
qed

lemma process_tags_cases:
  "process_tags s n a =
     (if lower (trigger_tag n) \<in> set (unique_tags s n a)
      then join '', '' (unique_tags s n a)
      else join '', '' (trigger_tag n # unique_tags s n a))"
  by (simp add: process_tags_def Let_def)

text \<open>A tidy list that already holds the lower-cased trigger is written back unchanged.\<close>

lemma process_tags_fixed:
  assumes "tidy n a us" "lower (trigger_tag n) \<in> set us"
  shows "process_tags (join '', '' us) n a = join '', '' us"
proof -
  have "us \<noteq> []" using assms(2) by auto
  then have "unique_tags (join '', '' us) n a = us"
    using assms(1) by (rule unique_tags_join_tidy[rotated])
  then show ?thesis using assms(2) by (simp add: process_tags_cases)
qed

lemma process_tags_twice_stable:
  "process_tags (process_tags (process_tags s n a) n a) n a = process_tags (process_tags s n a) n a"
proof -
  let ?T = "trigger_tag n"
  let ?u = "unique_tags s n a"
  let ?ps = "filter (kept n a) (map (\<lambda>t. lower (strip t)) (split_on is_comma ?T))"
  have tu: "tidy n a ?u" by (rule tidy_unique_tags)
  show ?thesis
  proof (cases "lower ?T \<in> set ?u")
    case True
    then have "process_tags s n a = join '', '' ?u" by (simp add: process_tags_cases)
    moreover have "process_tags (join '', '' ?u) n a = join '', '' ?u"
      using tu True by (rule process_tags_fixed)
    ultimately show ?thesis by (simp only:)
  next
    case False
    let ?u2 = "dedupe (?ps @ ?u) {} []"
    have p1: "process_tags s n a = join '', '' (?T # ?u)"
      using False by (simp add: process_tags_cases)
    have u2: "unique_tags (join '', '' (?T # ?u)) n a = ?u2"
      using tu by (rule unique_tags_join)
    have tu2: "tidy n a ?u2" using tu by (rule tidy_dedupe_pieces)
    show ?thesis
    proof (cases "lower ?T \<in> set ?u2")
      case True
      have p2: "process_tags (process_tags s n a) n a = join '', '' ?u2"
        unfolding p1 process_tags_cases[of "join '', '' (?T # ?u)"] u2 using True by (rule if_P)
      have "process_tags (join '', '' ?u2) n a = join '', '' ?u2"
        using tu2 True by (rule process_tags_fixed)
      with p2 show ?thesis by (simp only:)
    next
      case F2: False
      have p2: "process_tags (process_tags s n a) n a = join '', '' (?T # ?u2)"
        unfolding p1 process_tags_cases[of "join '', '' (?T # ?u)"] u2 using F2 by (rule if_not_P)
      have "unique_tags (join '', '' (?T # ?u2)) n a = dedupe (?ps @ ?u2) {} []"
        using tu2 by (rule unique_tags_join)
      also have "\<dots> = ?u2" by (rule dedupe_append_absorb)
      finally have u3: "unique_tags (join '', '' (?T # ?u2)) n a = ?u2" .
      have "process_tags (join '', '' (?T # ?u2)) n a = join '', '' (?T # ?u2)"
        unfolding process_tags_cases[of "join '', '' (?T # ?u2)"] u3 using F2 by (rule if_not_P)
      with p2 show ?thesis by (simp only:)
    qed
  qed
qed

section \<open>Facts about the trigger tag\<close>

lemma join_Cons: "join sep (x # us) = x @ (if us = [] then [] else sep @ join sep us)"
  by (cases us) auto

lemma join_hd_nonempty: "x \<noteq> [] \<Longrightarrow> join sep (x # us) \<noteq> []"
  by (simp add: join_Cons)

lemma join_Cons_inject: "join sep (x # us) = join sep (y # us) \<Longrightarrow> x = y"
  by (simp add: join_Cons)

lemma lower_append: "lower (a @ b) = lower a @ lower b"
  by (simp add: lower_def)

lemma length_lower [simp]: "length (lower s) = length s"
  by (simp add: lower_def)

lemma trigger_tag_not_Nil: "trigger_tag n \<noteq> []"
  by (simp add: trigger_tag_def)

lemma lower_trigger_tag: "lower (trigger_tag n) = ''zz'' @ lower (capitalized n) @ ''c1tr0n''"
proof -
  have a: "lower ''zz'' = ''zz''" by code_simp
  have b: "lower ''C1tr0n'' = ''c1tr0n''" by code_simp
  show ?thesis unfolding trigger_tag_def lower_append a b ..
qed

lemma lower_trigger_tag_neq: "lower (trigger_tag n) \<noteq> trigger_tag n"
proof
  assume "lower (trigger_tag n) = trigger_tag n"
  then have "''zz'' @ lower (capitalized n) @ ''c1tr0n'' = ''zz'' @ capitalized n @ ''C1tr0n''"
    unfolding lower_trigger_tag by (simp only: trigger_tag_def)
  then have "lower (capitalized n) @ ''c1tr0n'' = capitalized n @ ''C1tr0n''"
    by (simp only: same_append_eq)
  moreover have "length (lower (capitalized n)) = length (capitalized n)" by simp
  ultimately have "''c1tr0n'' = ''C1tr0n''"
    by (metis append_eq_append_conv)
  then show False by simp
qed

lemma last_trigger_tag: "last (trigger_tag n) = CHR ''n''"
  by (simp add: trigger_tag_def)

lemma last_lower_trigger_tag: "last (lower (trigger_tag n)) = CHR ''n''"
  by (simp add: lower_trigger_tag)

lemma hd_trigger_tag: "hd (trigger_tag n) = CHR ''z''"
  by (simp add: trigger_tag_def)

lemma trigger_tag_neq_pokemon_tag: "trigger_tag n \<noteq> m @ ''_(pokemon)''"
proof
  assume "trigger_tag n = m @ ''_(pokemon)''"
  then have "last (trigger_tag n) = last (m @ ''_(pokemon)'')" by (rule arg_cong)
  then show False by (simp add: last_trigger_tag)
qed

lemma lower_trigger_tag_neq_pokemon_tag: "lower (trigger_tag n) \<noteq> m @ ''_(pokemon)''"
proof
  assume "lower (trigger_tag n) = m @ ''_(pokemon)''"
  then have "last (lower (trigger_tag n)) = last (m @ ''_(pokemon)'')" by (rule arg_cong)
  then show False by (simp add: last_lower_trigger_tag)
qed

lemma strip_trigger_tag: "strip (trigger_tag n) = trigger_tag n"
proof -
  have "\<not> is_space CHR ''z''" "\<not> is_space CHR ''n''" by (simp_all add: is_space_def)
  then show ?thesis
    unfolding strip_fixed_iff hd_trigger_tag last_trigger_tag by blast
qed

text \<open>Commas in the capitalized name come from the name.\<close>

lemma split_on_subset: "p \<in> set (split_on P s) \<Longrightarrow> set p \<subseteq> set s"
proof (induction s arbitrary: p)
  case Nil
  then show ?case by simp
next
  case (Cons d s)
  obtain q qs where r: "split_on P s = q # qs" by (cases "split_on P s") auto
  show ?case
  proof (cases "P d")
    case True
    with Cons show ?thesis by auto
  next
    case False
    with Cons.prems r have "p = d # q \<or> p \<in> set qs" by (simp add: Let_def)
    then show ?thesis
    proof
      assume "p = d # q"
      moreover have "set q \<subseteq> set s" using Cons.IH[of q] r by simp
      ultimately show ?thesis by auto
    next
      assume "p \<in> set qs"
      then have "set p \<subseteq> set s" using Cons.IH[of p] r by simp
      then show ?thesis by auto
    qed
  qed
qed

lemma comma_capitalize:
  assumes "CHR '','' \<in> set (capitalize p)"
  shows "CHR '','' \<in> set p"
proof (cases p)
  case Nil
  then show ?thesis using assms by simp
next
  case (Cons c cs)
  from assms have "CHR '','' = title_char c \<or> CHR '','' \<in> set (lower cs)"
    unfolding Cons capitalize.simps set_simps by blast
  then have "c = CHR '','' \<or> CHR '','' \<in> set cs"
    using title_char_eq_comma[of c] comma_lower[of cs] by metis
  then show ?thesis unfolding Cons set_simps by blast
qed

lemma comma_capitalized:
  assumes "CHR '','' \<notin> set n"
  shows "CHR '','' \<notin> set (capitalized n)"
proof
  assume "CHR '','' \<in> set (capitalized n)"
  then obtain p where p: "p \<in> set (split_on is_separator n)" "CHR '','' \<in> set (capitalize p)"
    unfolding capitalized_def by auto
  from p(2) have "CHR '','' \<in> set p" by (rule comma_capitalize)
  with split_on_subset[OF p(1)] assms show False by blast
qed

lemma comma_trigger_tag:
  assumes "CHR '','' \<notin> set n"
  shows "CHR '','' \<notin> set (trigger_tag n)"
  using comma_capitalized[OF assms] by (simp add: trigger_tag_def)

lemma subject_name_no_comma: "subject_name n \<Longrightarrow> CHR '','' \<notin> set n"
  by (auto simp: subject_name_def list_all_iff subject_char_code Let_def)

section \<open>Facts about processed tag lines\<close>

lemma unique_tags_blank:
  assumes "\<forall>p\<in>set (split_on is_comma s). strip p = []"
  shows "unique_tags s n a = []"
proof -
  have "filter (kept n a) (map (\<lambda>t. lower (strip t)) (split_on is_comma s)) = []"
    unfolding filter_empty_conv
  proof
    fix t
    assume "t \<in> set (map (\<lambda>t. lower (strip t)) (split_on is_comma s))"
    then obtain p where "p \<in> set (split_on is_comma s)" "t = lower (strip p)"
      unfolding set_map by (rule imageE)
    with assms have "t = []" by (simp add: lower_def)
    then show "\<not> kept n a t" by (simp add: kept_def)
  qed
  then show ?thesis by (simp add: unique_tags_alt)
qed

lemma process_tags_not_Nil: "process_tags s n a \<noteq> []"
proof (cases "lower (trigger_tag n) \<in> set (unique_tags s n a)")
  case True
  then obtain u us where us: "unique_tags s n a = u # us"
    by (cases "unique_tags s n a") auto
  have "tidy n a (u # us)" using tidy_unique_tags[of n a s] us by simp
  then have "u \<noteq> []" by (simp add: tidy_def kept_def)
  then have "join '', '' (u # us) \<noteq> []" by (rule join_hd_nonempty)
  with True us show ?thesis by (simp add: process_tags_cases)
next
  case False
  have "join '', '' (trigger_tag n # unique_tags s n a) \<noteq> []"
    using trigger_tag_not_Nil by (rule join_hd_nonempty)
  with False show ?thesis by (simp add: process_tags_cases)
qed

text \<open>The second pass over a line that starts with the trigger.\<close>

lemma norm_pieces_trigger:
  assumes "CHR '','' \<notin> set n"
  shows "map (\<lambda>t. lower (strip t)) (split_on is_comma (trigger_tag n)) = [lower (trigger_tag n)]"
proof -
  have "split_on is_comma (trigger_tag n) = [trigger_tag n]"
    using comma_trigger_tag[OF assms] by (intro split_on_free) auto
  then show ?thesis by (simp add: strip_trigger_tag)
qed

lemma kept_lower_trigger: "kept n a (lower (trigger_tag n)) = (lower (trigger_tag n) \<notin> a)"
proof -
  have "lower (trigger_tag n) \<noteq> []" using trigger_tag_not_Nil[of n] by (simp add: lower_def)
  then show ?thesis
    using lower_trigger_tag_neq_pokemon_tag[of n n] by (simp add: kept_def)
qed

lemma process_tags_twice_cases:
  assumes "CHR '','' \<notin> set n"
  shows "process_tags (process_tags s n a) n a =
     (if lower (trigger_tag n) \<in> set (unique_tags s n a) then join '', '' (unique_tags s n a)
      else if lower (trigger_tag n) \<in> a then join '', '' (trigger_tag n # unique_tags s n a)
      else join '', '' (lower (trigger_tag n) # unique_tags s n a))"
proof -
  let ?T = "trigger_tag n"
  let ?u = "unique_tags s n a"
  have tu: "tidy n a ?u" by (rule tidy_unique_tags)
  show ?thesis
  proof (cases "lower ?T \<in> set ?u")
    case True
    then have "process_tags s n a = join '', '' ?u" by (simp add: process_tags_cases)
    moreover have "process_tags (join '', '' ?u) n a = join '', '' ?u"
      using tu True by (rule process_tags_fixed)
    ultimately show ?thesis using True by (simp only: if_True)
  next
    case False
    have p1: "process_tags s n a = join '', '' (?T # ?u)"
      using False by (simp add: process_tags_cases)
    have u2: "unique_tags (join '', '' (?T # ?u)) n a
        = dedupe (filter (kept n a) [lower ?T] @ ?u) {} []"
      using unique_tags_join[OF tu, of ?T] by (simp only: norm_pieces_trigger[OF assms])
    have du: "dedupe ?u {} [] = ?u"
      using tu by (intro dedupe_distinct) (simp_all add: tidy_def)
    show ?thesis
    proof (cases "lower ?T \<in> a")
      case True
      then have "unique_tags (join '', '' (?T # ?u)) n a = ?u"
        unfolding u2 by (simp add: kept_lower_trigger du)
      then have "process_tags (join '', '' (?T # ?u)) n a = join '', '' (?T # ?u)"
        unfolding process_tags_cases[of "join '', '' (?T # ?u)"] using False by simp
      with p1 True False show ?thesis by (simp only: if_True if_False)
    next
      case F2: False
      have "dedupe (lower ?T # ?u) {} [] = lower ?T # ?u"
        using tu False by (intro dedupe_distinct) (simp_all add: tidy_def)
      then have "unique_tags (join '', '' (?T # ?u)) n a = lower ?T # ?u"
        unfolding u2 using F2 by (simp add: kept_lower_trigger)
      then have "process_tags (join '', '' (?T # ?u)) n a = join '', '' (lower ?T # ?u)"
        unfolding process_tags_cases[of "join '', '' (?T # ?u)"] by simp
      with p1 F2 False show ?thesis by (simp only: if_False)
    qed
  qed
qed

lemma split_comma_space_free:
  "CHR '','' \<notin> set x \<Longrightarrow> split_comma_space x = [x]"
proof (induction x)
  case Nil
  then show ?case by simp
next
  case (Cons c x)
  have c: "c \<noteq> CHR '',''" using Cons.prems by auto
  have ih: "split_comma_space x = [x]" using Cons by simp
  show ?case
  proof (cases x)
    case Nil
    then show ?thesis by simp
  next
    case (Cons d cs)
    with c ih show ?thesis by simp
  qed
qed

lemma split_comma_space_append:
  "CHR '','' \<notin> set x \<Longrightarrow> split_comma_space (x @ '', '' @ rest) = x # split_comma_space rest"
proof (induction x)
  case Nil
  then show ?case by simp
next
  case (Cons c x)
  obtain d cs where dc: "x @ '', '' @ rest = d # cs"
    by (cases "x @ '', '' @ rest") auto
  have ih: "split_comma_space (d # cs) = x # split_comma_space rest"
    using Cons dc by simp
  have "c \<noteq> CHR '',''" using Cons.prems by auto
  then have "split_comma_space (c # d # cs) = (c # x) # split_comma_space rest"
    using ih by simp
  then show ?case using dc by simp
qed

lemma split_comma_space_join:
  assumes "\<forall>x\<in>set xs. CHR '','' \<notin> set x" "xs \<noteq> []"
  shows "split_comma_space (join '', '' xs) = xs"
  using assms
proof (induction xs)
  case Nil
  then show ?case by simp
next
  case (Cons x xs)
  have x: "CHR '','' \<notin> set x" using Cons.prems by simp
  show ?case
  proof (cases xs)
    case Nil
    with x show ?thesis by (simp add: split_comma_space_free)
  next
    case (Cons y ys)
    then have "split_comma_space (join '', '' xs) = xs" using Cons.IH Cons.prems by simp
    moreover have "join '', '' (x # xs) = x @ '', '' @ join '', '' xs" using Cons by simp
    ultimately show ?thesis
      using split_comma_space_append[OF x, of "join '', '' xs"] by simp
  qed
qed

lemma tidy_lower_fixed: "tidy n a us \<Longrightarrow> u \<in> set us \<Longrightarrow> lower u = u"
proof -
  assume "tidy n a us" "u \<in> set us"
  then have "lower (strip u) = u" by (simp add: tidy_def)
  then have "lower u = lower (lower (strip u))" by simp
  also have "\<dots> = lower (strip u)" by (rule lower_lower)
  finally show ?thesis using \<open>lower (strip u) = u\<close> by simp
qed

section \<open>Facts about the standard folder name\<close>

lemma subject_char_lower_title: "subject_char c \<Longrightarrow> lower_char (title_char c) = c"
  unfolding char_eq_iff_code[of _ c] of_char_lower_char of_char_title_char subject_char_code Let_def
    is_upper_def is_lower_def
  by auto

lemma subject_char_lower_fixed: "subject_char c \<Longrightarrow> lower_char c = c"
  unfolding char_eq_iff_code[of _ c] of_char_lower_char subject_char_code Let_def is_upper_def
  by auto


lemma lower_capitalize_subject:
  assumes "list_all subject_char p"
  shows "lower (capitalize p) = p"
proof (cases p)
  case Nil
  then show ?thesis by (simp add: lower_def)
next
  case (Cons c cs)
  have "lower_char (title_char c) = c" using assms Cons by (simp add: subject_char_lower_title)
  moreover have "map lower_char cs = cs"
    using assms Cons by (simp add: list_all_iff subject_char_lower_fixed map_idI)
  ultimately show ?thesis using Cons by (simp add: lower_def)
qed


lemma concat_split_on: "concat (split_on P s) = filter (\<lambda>c. \<not> P c) s"
proof (induction s)
  case Nil
  then show ?case by simp
next
  case (Cons d s)
  obtain q qs where r: "split_on P s = q # qs" by (cases "split_on P s") auto
  with Cons show ?case by (simp add: Let_def)
qed

lemma lower_concat_capitalize:
  assumes "\<forall>p\<in>set ps. list_all subject_char p"
  shows "lower (concat (map capitalize ps)) = concat ps"
  using assms
proof (induction ps)
  case Nil
  then show ?case by (simp add: lower_def)
next
  case (Cons p ps)
  then show ?case by (simp add: lower_append lower_capitalize_subject)
qed


lemma split_on_subject:
  assumes "list_all subject_char n" "p \<in> set (split_on P n)"
  shows "list_all subject_char p"
  using split_on_subset[OF assms(2)] assms(1) unfolding list_all_iff by blast

lemma lower_capitalized:
  assumes "list_all subject_char n"
  shows "lower (capitalized n) = filter (\<lambda>c. \<not> is_separator c) n"
proof -
  have "\<forall>p\<in>set (split_on is_separator n). list_all subject_char p"
    using split_on_subject[OF assms] by blast
  then have "lower (capitalized n) = concat (split_on is_separator n)"
    unfolding capitalized_def by (rule lower_concat_capitalize)
  then show ?thesis by (simp only: concat_split_on)
qed




section \<open>Facts about the first loop of the orchestrator\<close>

lemma scan_folders_to_process:
  "((f, n) \<in> set (folders_to_process (scan_folders v fs acc)))
     = ((f, n) \<in> set (folders_to_process acc)
        \<or> (f \<in> set fs \<and> extract_pokemon_name f = Some n \<and> v (capitalize n)))"
proof (induction fs arbitrary: acc)
  case Nil
  then show ?case by simp
next
  case (Cons g fs)
  show ?case
  proof (cases "extract_pokemon_name g")
    case None
    then show ?thesis using Cons[of "acc\<lparr>unprocessed_folders := unprocessed_folders acc @ [g @ '' (unrecognized format)'']\<rparr>"]
      by auto
  next
    case (Some m)
    show ?thesis
    proof (cases "v (capitalize m)")
      case False
      then show ?thesis
        using Some Cons[of "acc\<lparr>unprocessed_folders := unprocessed_folders acc @ [g @ '' (Pokemon name not in database)'']\<rparr>"]
        by auto
    next
      case True
      let ?acc1 = "acc\<lparr>folders_to_process := folders_to_process acc @ [(g, m)]\<rparr>"
      show ?thesis
      proof (cases "should_rename_folder g m")
        case r: True
        then show ?thesis
          using Some True
            Cons[of "?acc1\<lparr>folders_to_rename := folders_to_rename ?acc1 @ [(g, get_standard_folder_name m)]\<rparr>"]
          by (auto simp: Let_def)
      next
        case r: False
        then show ?thesis
          using Some True Cons[of ?acc1] by (auto simp: Let_def)
      qed
    qed
  qed
qed

lemma length_capitalize [simp]: "length (capitalize p) = length p"
  by (cases p) (simp_all add: lower_def)

lemma capitalize_eq_capitalized_iff:
  assumes "list_all subject_char n"
  shows "(capitalize n = capitalized n) = (\<forall>c\<in>set n. \<not> is_separator c)"
proof
  assume "capitalize n = capitalized n"
  then have "lower (capitalize n) = lower (capitalized n)" by simp
  then have "filter (\<lambda>c. \<not> is_separator c) n = n"
    by (simp only: lower_capitalize_subject[OF assms] lower_capitalized[OF assms])
  then show "\<forall>c\<in>set n. \<not> is_separator c" by (simp only: filter_id_conv)
next
  assume "\<forall>c\<in>set n. \<not> is_separator c"
  then have "split_on is_separator n = [n]" by (rule split_on_free)
  then show "capitalize n = capitalized n" by (simp add: capitalized_def)
qed

section \<open>Facts about the rename and processing loops\<close>





























section \<open>Claims about the classifier\<close>

text \<open>
  Claim C4. A folder name that is a name of one or more letters, digits, underscores or
  hyphens followed by \<open>Pokedex_IXL\<close> in any letter case is classified as that name in
  lower case; \<open>PikachuPokedex_IXL\<close> gives \<open>pikachu\<close>.
\<close>

theorem extract_pokemon_name_pokedex_suffix:
  assumes "name \<noteq> []" and "list_all name_char name"
    and "map lower_char suf = map lower_char ''Pokedex_IXL''"
  shows "extract_pokemon_name (name @ suf) = Some (lower name)"
  using assms by (rule extract_pokemon_name_standard)

theorem extract_pokemon_name_pokedex_suffix_witness:
  "extract_pokemon_name ''PikachuPokedex_IXL'' = Some ''pikachu''"
proof -
  have a: "''Pikachu'' \<noteq> []" by simp
  have b: "list_all name_char ''Pikachu''" by code_simp
  have c: "map lower_char ''Pokedex_IXL'' = map lower_char ''Pokedex_IXL''" by simp
  have d: "lower ''Pikachu'' = ''pikachu''" by code_simp
  from extract_pokemon_name_pokedex_suffix[OF a b c] d show ?thesis by simp
qed

text \<open>
  Claim C5. A folder name that contains \<open>pokedex\<close> in any letter case and matches none of
  the first three patterns is not recognized: the bare-name pattern does not fire. This
  holds for every folder name, so also for those made only of letters, digits,
  underscores and hyphens.
\<close>

theorem extract_pokemon_name_pokedex_excluded:
  assumes "contains ''pokedex'' (lower folder_name)"
    and "match_name_then ''Pokedex_IXL'' folder_name = None"
    and "match_name_then ''_(pokemon)'' folder_name = None"
    and "match_name_then ''_pokemon'' folder_name = None"
  shows "extract_pokemon_name folder_name = None"
  using assms by (simp add: extract_pokemon_name_def split: option.splits)

theorem extract_pokemon_name_pokedex_excluded_witness:
  "list_all name_char ''my-Pokedex_old'' \<and> contains ''pokedex'' (lower ''my-Pokedex_old'')
   \<and> match_name_then ''Pokedex_IXL'' ''my-Pokedex_old'' = None
   \<and> match_name_then ''_(pokemon)'' ''my-Pokedex_old'' = None
   \<and> match_name_then ''_pokemon'' ''my-Pokedex_old'' = None
   \<and> extract_pokemon_name ''my-Pokedex_old'' = None"
proof -
  have n: "list_all name_char ''my-Pokedex_old''" by code_simp
  have a: "contains ''pokedex'' (lower ''my-Pokedex_old'')" by code_simp
  have b: "match_name_then ''Pokedex_IXL'' ''my-Pokedex_old'' = None" by code_simp
  have c: "match_name_then ''_(pokemon)'' ''my-Pokedex_old'' = None" by code_simp
  have d: "match_name_then ''_pokemon'' ''my-Pokedex_old'' = None" by code_simp
  from extract_pokemon_name_pokedex_excluded[OF a b c d] n a b c d show ?thesis by blast
qed






section \<open>Claims about the tag processor\<close>

text \<open>
  Claim C10. For every tag line, every subject name and every absorb set, the result of
  processing twice is a fixed point: a third pass gives the same text as the second.
\<close>

theorem process_tags_stable_after_two:
  "process_tags (process_tags (process_tags s n a) n a) n a
     = process_tags (process_tags s n a) n a"
  by (rule process_tags_twice_stable)

theorem process_tags_stable_after_two_witness:
  "process_tags (process_tags ''cute'' ''eevee'' {}) ''eevee'' {} = ''zzeeveec1tr0n, cute''
   \<and> process_tags ''zzeeveec1tr0n, cute'' ''eevee'' {} = ''zzeeveec1tr0n, cute''"
proof -
  have e: "process_tags (process_tags ''cute'' ''eevee'' {}) ''eevee'' {} = ''zzeeveec1tr0n, cute''"
    by code_simp
  from process_tags_stable_after_two[of "''cute''" "''eevee''" "{}"] e show ?thesis by simp
qed

text \<open>
  Claim C8. A tag line whose comma-separated pieces are all empty after trimming is
  rewritten to the trigger tag alone, and no tag line at all is rewritten to the empty
  text.
\<close>

theorem process_tags_blank_input:
  "((\<forall>p\<in>set (split_on is_comma s). strip p = []) \<longrightarrow> process_tags s n a = trigger_tag n)
   \<and> process_tags s n a \<noteq> []"
proof (intro conjI impI)
  assume "\<forall>p\<in>set (split_on is_comma s). strip p = []"
  then have "unique_tags s n a = []" by (rule unique_tags_blank)
  then show "process_tags s n a = trigger_tag n" by (simp add: process_tags_cases)
next
  show "process_tags s n a \<noteq> []" by (rule process_tags_not_Nil)
qed

theorem process_tags_blank_input_witness:
  "process_tags '' ,  ,'' ''mr-mime'' {} = ''zzMrMimeC1tr0n''"
proof -
  have h: "\<forall>p\<in>set (split_on is_comma '' ,  ,''). strip p = []" by code_simp
  have t: "trigger_tag ''mr-mime'' = ''zzMrMimeC1tr0n''" by code_simp
  from process_tags_blank_input[of "'' ,  ,''" "''mr-mime''" "{}"] h t show ?thesis by simp
qed

text \<open>
  Claim C1, as stated: processing a processed line again gives the same line. It fails:
  a line without the trigger gets the trigger in front, and the next pass reads that
  trigger back in lower case.
\<close>

theorem process_tags_not_idempotent:
  "process_tags (process_tags ''cute'' ''eevee'' {}) ''eevee'' {} \<noteq> process_tags ''cute'' ''eevee'' {}"
  by code_simp

text \<open>
  Claim C1, amended. For a subject name (non-empty, of lower-case letters, digits,
  underscores and hyphens), a second pass reproduces the result of the first exactly
  when the lower-cased trigger is among the cleaned tags of the line or is in the absorb
  set.
\<close>

theorem process_tags_idempotent_iff:
  assumes "subject_name n"
  shows "(process_tags (process_tags s n a) n a = process_tags s n a)
         = (lower (trigger_tag n) \<in> set (unique_tags s n a) \<or> lower (trigger_tag n) \<in> a)"
proof -
  have c: "CHR '','' \<notin> set n" using assms by (rule subject_name_no_comma)
  have neq: "join '', '' (lower (trigger_tag n) # unique_tags s n a)
      \<noteq> join '', '' (trigger_tag n # unique_tags s n a)"
    using join_Cons_inject lower_trigger_tag_neq by blast
  have two: "process_tags (process_tags s n a) n a =
     (if lower (trigger_tag n) \<in> set (unique_tags s n a) then join '', '' (unique_tags s n a)
      else if lower (trigger_tag n) \<in> a then join '', '' (trigger_tag n # unique_tags s n a)
      else join '', '' (lower (trigger_tag n) # unique_tags s n a))"
    by (rule process_tags_twice_cases[OF c])
  have one: "process_tags s n a =
     (if lower (trigger_tag n) \<in> set (unique_tags s n a)
      then join '', '' (unique_tags s n a)
      else join '', '' (trigger_tag n # unique_tags s n a))"
    by (rule process_tags_cases)
  show ?thesis
  proof (cases "lower (trigger_tag n) \<in> set (unique_tags s n a)")
    case True
    with two one show ?thesis by simp
  next
    case False
    show ?thesis
    proof (cases "lower (trigger_tag n) \<in> a")
      case True
      with False two one show ?thesis by simp
    next
      case F2: False
      with False two one neq show ?thesis by simp
    qed
  qed
qed

theorem process_tags_idempotent_iff_witness:
  "subject_name ''eevee''
   \<and> process_tags (process_tags ''zzeeveec1tr0n, cute'' ''eevee'' {}) ''eevee'' {}
       = process_tags ''zzeeveec1tr0n, cute'' ''eevee'' {}
   \<and> lower (trigger_tag ''eevee'') \<in> set (unique_tags ''zzeeveec1tr0n, cute'' ''eevee'' {})"
proof -
  have h: "subject_name ''eevee''" by code_simp
  have m: "lower (trigger_tag ''eevee'') \<in> set (unique_tags ''zzeeveec1tr0n, cute'' ''eevee'' {})"
    by code_simp
  from process_tags_idempotent_iff[OF h, of "''zzeeveec1tr0n, cute''" "{}"] h m
  show ?thesis by simp
qed

text \<open>
  Claim C3. For a subject name and an absorb set of lower-case strings, the tags read
  back from a processed line by splitting at comma-space have no empty entry, no two
  entries equal up to letter case, no entry equal to the self-referential tag of the
  subject, no entry of the absorb set, and either some entry other than the trigger
  equals it up to letter case, or the trigger is the first entry and occurs only there.
\<close>

theorem process_tags_output_invariant:
  assumes "subject_name n" and "\<forall>t\<in>a. lower t = t"
  shows "let ts = split_comma_space (process_tags s n a) in
           [] \<notin> set ts
         \<and> distinct (map lower ts)
         \<and> n @ ''_(pokemon)'' \<notin> set ts
         \<and> (\<forall>t\<in>set ts. t \<notin> a)
         \<and> ((\<exists>e\<in>set ts. e \<noteq> trigger_tag n \<and> lower e = lower (trigger_tag n))
            \<or> (hd ts = trigger_tag n \<and> trigger_tag n \<notin> set (tl ts)))"
proof -
  let ?T = "trigger_tag n"
  let ?u = "unique_tags s n a"
  let ?f = "if lower ?T \<in> set ?u then ?u else ?T # ?u"
  have tu: "tidy n a ?u" by (rule tidy_unique_tags)
  have c: "CHR '','' \<notin> set ?T"
    using assms(1) by (intro comma_trigger_tag subject_name_no_comma)
  have low: "map lower ?u = ?u"
    using tidy_lower_fixed[OF tu] by (simp add: map_idI)
  have Tu: "?T \<notin> set ?u"
    using tidy_lower_fixed[OF tu, of ?T] lower_trigger_tag_neq by blast
  have Ta: "?T \<notin> a" using assms(2) lower_trigger_tag_neq by blast
  have fne: "?f \<noteq> []" by auto
  have fc: "\<forall>x\<in>set ?f. CHR '','' \<notin> set x"
    using tu c by (simp add: tidy_def)
  have "process_tags s n a = join '', '' ?f"
    by (simp add: process_tags_cases)
  then have ts: "split_comma_space (process_tags s n a) = ?f"
    using split_comma_space_join[OF fc fne] by simp
  have 1: "[] \<notin> set ?f"
    using tu trigger_tag_not_Nil[of n] by (auto simp: tidy_def kept_def)
  have 2: "distinct (map lower ?f)"
    using tu low by (simp add: tidy_def)
  have 3: "n @ ''_(pokemon)'' \<notin> set ?f"
    using tu trigger_tag_neq_pokemon_tag[of n n] by (auto simp: tidy_def kept_def)
  have 4: "\<forall>t\<in>set ?f. t \<notin> a"
    using tu Ta by (simp add: tidy_def kept_def)
  have 5: "(\<exists>e\<in>set ?f. e \<noteq> ?T \<and> lower e = lower ?T) \<or> (hd ?f = ?T \<and> ?T \<notin> set (tl ?f))"
  proof (cases "lower ?T \<in> set ?u")
    case True
    then have "lower ?T \<in> set ?f" by simp
    moreover have "lower ?T \<noteq> ?T" by (rule lower_trigger_tag_neq)
    moreover have "lower (lower ?T) = lower ?T" by simp
    ultimately show ?thesis by blast
  next
    case False
    with Tu show ?thesis by simp
  qed
  from 1 2 3 4 5 show ?thesis unfolding ts Let_def by blast
qed

theorem process_tags_output_invariant_witness:
  "subject_name ''eevee''
   \<and> split_comma_space (process_tags ''Eevee_(pokemon), cute, 1girl, Cute , ,collar'' ''eevee'' {''1girl''})
       = [''zzEeveeC1tr0n'', ''cute'', ''collar'']
   \<and> distinct (map lower [''zzEeveeC1tr0n'', ''cute'', ''collar''])
   \<and> hd [''zzEeveeC1tr0n'', ''cute'', ''collar''] = trigger_tag ''eevee''"
proof -
  have h1: "subject_name ''eevee''" by code_simp
  have h2: "\<forall>t\<in>{''1girl''}. lower t = t" by code_simp
  have e: "split_comma_space (process_tags ''Eevee_(pokemon), cute, 1girl, Cute , ,collar'' ''eevee'' {''1girl''})
       = [''zzEeveeC1tr0n'', ''cute'', ''collar'']" by code_simp
  have t: "trigger_tag ''eevee'' = ''zzEeveeC1tr0n''" by code_simp
  from process_tags_output_invariant[OF h1 h2, of "''Eevee_(pokemon), cute, 1girl, Cute , ,collar''"]
  have "distinct (map lower [''zzEeveeC1tr0n'', ''cute'', ''collar''])"
    unfolding e Let_def by blast
  with h1 h2 e t show ?thesis by simp
qed

section \<open>Claims about the orchestrator\<close>

text \<open>
  Claim C6, as stated: the collaborator is asked about the capitalized-word form of the
  subject name, the form the trigger tag is built from. It fails for \<open>mr-mime\<close>: a
  collaborator that knows exactly the word form \<open>MrMime\<close> rejects the folder, because it
  is asked about \<open>Mr-mime\<close>.
\<close>

theorem validation_query_word_form_counterexample:
  "extract_pokemon_name ''mr-mime'' = Some ''mr-mime''
   \<and> capitalized ''mr-mime'' = ''MrMime''
   \<and> folders_to_process (scan_folders ((=) ''MrMime'') [''mr-mime'']
        \<lparr>folders_to_process = [], folders_to_rename = [], unprocessed_folders = []\<rparr>) = []
   \<and> unprocessed_folders (scan_folders ((=) ''MrMime'') [''mr-mime'']
        \<lparr>folders_to_process = [], folders_to_rename = [], unprocessed_folders = []\<rparr>)
       = [''mr-mime (Pokemon name not in database)'']"
  by code_simp

text \<open>
  Claim C6, amended. A recognized folder is accepted exactly when the collaborator
  accepts the subject name capitalized as a whole (first character in upper case, the
  rest in lower case, separators kept); that text is the capitalized-word form exactly
  when the subject name has no underscore and no hyphen.
\<close>

theorem validation_query_capitalize:
  assumes "extract_pokemon_name folder = Some n" and "folder \<in> set all_folders"
  shows "((folder, n) \<in> set (folders_to_process (scan_folders ispokemon all_folders
             \<lparr>folders_to_process = [], folders_to_rename = [], unprocessed_folders = []\<rparr>)))
           = ispokemon (capitalize n)
         \<and> (capitalize n = capitalized n) = (\<forall>c\<in>set n. \<not> is_separator c)"
proof
  show "((folder, n) \<in> set (folders_to_process (scan_folders ispokemon all_folders
             \<lparr>folders_to_process = [], folders_to_rename = [], unprocessed_folders = []\<rparr>)))
           = ispokemon (capitalize n)"
    unfolding scan_folders_to_process using assms by simp
next
  have "list_all subject_char n" using extract_pokemon_name_subject[OF assms(1)] by simp
  then show "(capitalize n = capitalized n) = (\<forall>c\<in>set n. \<not> is_separator c)"
    by (rule capitalize_eq_capitalized_iff)
qed

theorem validation_query_capitalize_witness:
  "extract_pokemon_name ''mr-mime_pokemon'' = Some ''mr-mime''
   \<and> ''mr-mime_pokemon'' \<in> set [''Eevee'', ''mr-mime_pokemon'']
   \<and> (''mr-mime_pokemon'', ''mr-mime'') \<in> set (folders_to_process
        (scan_folders ((=) ''Mr-mime'') [''Eevee'', ''mr-mime_pokemon'']
           \<lparr>folders_to_process = [], folders_to_rename = [], unprocessed_folders = []\<rparr>))
   \<and> capitalize ''mr-mime'' \<noteq> capitalized ''mr-mime''"
proof -
  have h1: "extract_pokemon_name ''mr-mime_pokemon'' = Some ''mr-mime''" by code_simp
  have h2: "''mr-mime_pokemon'' \<in> set [''Eevee'', ''mr-mime_pokemon'']" by simp
  have c: "capitalize ''mr-mime'' = ''Mr-mime''" by code_simp
  have s: "is_separator CHR ''-''" by (simp add: is_separator_def)
  from validation_query_capitalize[OF h1 h2, of "(=) ''Mr-mime''"] h1 h2 c s
  show ?thesis by simp
qed



end
